theory Spec2Isabelle
  imports Main
begin

section \<open>A shallow embedding of \<^verbatim>\<open>bluesky-org-search.py\<close>\<close>

text \<open>
  The development follows the source file from the leaves upwards: the edit distance
  (\<^verbatim>\<open>levenshtein_distance\<close>), the token matcher (\<^verbatim>\<open>fuzzy_match\<close> and the four-way
  condition inside \<^verbatim>\<open>search_organization\<close>), the call-rate limiter (\<^verbatim>\<open>rate_limit\<close>)
  and the pagination loop of \<^verbatim>\<open>search_organization\<close>.

  Python values are modelled as follows. A \<^verbatim>\<open>str\<close> is a list of characters; the edit
  distance and the substring test are polymorphic in the character type, so they hold
  for any alphabet. Case folding, whitespace and the word class \<^verbatim>\<open>\w\<close> are written out
  for ASCII, the alphabet of \<^typ>\<open>char\<close> literals; other characters are left unchanged by
  \<^verbatim>\<open>lower\<close> and count neither as whitespace nor as word characters. An exception is a
  value of type \<open>error\<close>, and a function that can raise returns \<open>error + 'a\<close>.
\<close>

datatype error =
    ZeroDivisionError
  | IndexError
  | ValueError
  | AtProtocolError string
  | OtherException string


subsection \<open>Edit distance (source lines 153--171)\<close>

text \<open>
  The inner \<^verbatim>\<open>for j, c2 in enumerate(s2)\<close> loop appends one cell to \<^verbatim>\<open>current_row\<close>
  per character of \<^verbatim>\<open>s2\<close>; \<open>j\<close> is the loop index and the last argument is what is left
  of \<^verbatim>\<open>s2\<close>. Python's three-argument \<^verbatim>\<open>min\<close> is the nested \<open>min\<close>.
\<close>

fun inner_loop :: "nat list \<Rightarrow> 'a \<Rightarrow> nat list \<Rightarrow> nat \<Rightarrow> 'a list \<Rightarrow> nat list" where
  "inner_loop previous_row c1 current_row j [] = current_row"
| "inner_loop previous_row c1 current_row j (c2 # rest) =
     (let insertions = previous_row ! (j + 1) + 1;
          deletions = current_row ! j + 1;
          substitutions = previous_row ! j + (if c1 \<noteq> c2 then 1 else 0)
      in inner_loop previous_row c1
           (current_row @ [min insertions (min deletions substitutions)]) (j + 1) rest)"

text \<open>
  The outer \<^verbatim>\<open>for i, c1 in enumerate(s1)\<close> loop starts each row with \<^verbatim>\<open>[i + 1]\<close> and
  replaces \<^verbatim>\<open>previous_row\<close> by the finished row.
\<close>

fun outer_loop :: "'a list \<Rightarrow> nat list \<Rightarrow> nat \<Rightarrow> 'a list \<Rightarrow> nat list" where
  "outer_loop s2 previous_row i [] = previous_row"
| "outer_loop s2 previous_row i (c1 # rest) =
     outer_loop s2 (inner_loop previous_row c1 [i + 1] 0 s2) (i + 1) rest"

text \<open>
  The method swaps its arguments by one recursive call when the first string is the
  shorter one, returns \<^verbatim>\<open>len(s1)\<close> for an empty \<^verbatim>\<open>s2\<close>, and otherwise returns the last
  cell \<^verbatim>\<open>previous_row[-1]\<close> of the table started from \<^verbatim>\<open>range(len(s2) + 1)\<close>.
\<close>

function levenshtein_distance :: "'a list \<Rightarrow> 'a list \<Rightarrow> nat" where
  "levenshtein_distance s1 s2 =
     (if length s1 < length s2 then levenshtein_distance s2 s1
      else if length s2 = 0 then length s1
      else last (outer_loop s2 [0..<length s2 + 1] 0 s1))"
  by pat_completeness auto
termination
  by (relation "measure (\<lambda>(s1, s2). if length s1 < length s2 then 1 else 0)") auto

declare levenshtein_distance.simps [simp del]

text \<open>
  The textbook recurrence, used only to state what the table holds: \<open>lev xs ys\<close> is the
  distance of two strings read from their last character backwards, and \<open>row xs s2 n\<close>
  is the first \<open>n\<close> cells of the table row reached after the characters \<open>xs\<close> of \<^verbatim>\<open>s1\<close>.
  The indexed reads \<open>!\<close> of the two loops are in range exactly because each row equals
  such a \<open>row\<close>, which the lemmas below establish.
\<close>

fun lev :: "'a list \<Rightarrow> 'a list \<Rightarrow> nat" where
  "lev [] ys = length ys"
| "lev (x # xs) [] = Suc (length xs)"
| "lev (x # xs) (y # ys) =
     min (lev xs (y # ys) + 1)
         (min (lev (x # xs) ys + 1) (lev xs ys + (if x \<noteq> y then 1 else 0)))"

definition row :: "'a list \<Rightarrow> 'a list \<Rightarrow> nat \<Rightarrow> nat list" where
  "row xs s2 n = map (\<lambda>j. lev (rev xs) (rev (take j s2))) [0..<n]"


subsection \<open>Strings: \<^verbatim>\<open>lower\<close>, \<^verbatim>\<open>split\<close>, \<^verbatim>\<open>re.findall\<close>, \<^verbatim>\<open>in\<close>, \<^verbatim>\<open>join\<close>\<close>

definition lower_char :: "char \<Rightarrow> char" where
  "lower_char c =
     (let n = (of_char c :: nat) in if 65 \<le> n \<and> n \<le> 90 then char_of (n + 32) else c)"

definition lower :: "string \<Rightarrow> string" where
  "lower s = map lower_char s"

text \<open>
  \<^verbatim>\<open>str.split()\<close> without arguments cuts at runs of whitespace: the ASCII codes 9 to 13
  and 28 to 32. The pattern \<^verbatim>\<open>\b\w+\b\<close> of \<^verbatim>\<open>re.findall\<close> yields the maximal runs of word
  characters: letters, digits and the underscore. Both collect the maximal runs of the
  characters they keep, in order; \<open>cur\<close> is the run being read.
\<close>

definition is_space :: "char \<Rightarrow> bool" where
  "is_space c = (let n = (of_char c :: nat) in (9 \<le> n \<and> n \<le> 13) \<or> (28 \<le> n \<and> n \<le> 32))"

definition is_word_char :: "char \<Rightarrow> bool" where
  "is_word_char c =
     (let n = (of_char c :: nat)
      in (48 \<le> n \<and> n \<le> 57) \<or> (65 \<le> n \<and> n \<le> 90) \<or> n = 95 \<or> (97 \<le> n \<and> n \<le> 122))"

fun runs :: "(char \<Rightarrow> bool) \<Rightarrow> string \<Rightarrow> string \<Rightarrow> string list" where
  "runs keep cur [] = (if cur = [] then [] else [cur])"
| "runs keep cur (c # cs) =
     (if keep c then runs keep (cur @ [c]) cs
      else if cur = [] then runs keep [] cs
      else cur # runs keep [] cs)"

definition split :: "string \<Rightarrow> string list" where
  "split s = runs (\<lambda>c. \<not> is_space c) [] s"

definition findall_words :: "string \<Rightarrow> string list" where
  "findall_words s = runs is_word_char [] s"

text \<open>
  Python's \<^verbatim>\<open>needle in haystack\<close> on strings is the substring test: the needle starts
  at some position of the haystack.
\<close>

fun startswith :: "'a list \<Rightarrow> 'a list \<Rightarrow> bool" where
  "startswith [] haystack = True"
| "startswith (c # needle) [] = False"
| "startswith (c # needle) (d # haystack) = (c = d \<and> startswith needle haystack)"

fun str_in :: "'a list \<Rightarrow> 'a list \<Rightarrow> bool" where
  "str_in needle [] = (needle = [])"
| "str_in needle (d # haystack) = (startswith needle (d # haystack) \<or> str_in needle haystack)"

fun join_space :: "string list \<Rightarrow> string" where
  "join_space [] = []"
| "join_space [w] = w"
| "join_space (w # ws) = w @ '' '' @ join_space ws"


subsection \<open>The matcher (source lines 76--77, 97--100 and 141--151)\<close>

text \<open>
  \<^verbatim>\<open>fuzzy_match\<close> counts the tokens of the organisation name that are within distance 2
  of some token of the text, and returns \<^verbatim>\<open>matched_words / len(org_words) >= 0.7\<close>. The
  division raises \<^verbatim>\<open>ZeroDivisionError\<close> when there is no token. For a non-empty token
  list the quotient of the two integers is compared with seven tenths; the model
  compares \<open>7 * len\<close> with \<open>10 * matched\<close>, the same test on exact numbers. The
  double-precision test agrees with it for every token list of fewer than \<open>10^15\<close>
  tokens: a quotient below seven tenths is below it by at least \<open>1 / (10 * len)\<close>, more
  than the rounding of the quotient and of the constant can bridge.
\<close>

definition fuzzy_match :: "string \<Rightarrow> string \<Rightarrow> error + bool" where
  "fuzzy_match org_name search_text =
     (let org_words = split (lower org_name);
          search_words = split (lower search_text);
          matched_words = length (filter (\<lambda>org_word.
              list_ex (\<lambda>search_word. levenshtein_distance org_word search_word \<le> 2) search_words)
            org_words)
      in if length org_words = 0 then Inl ZeroDivisionError
         else Inr (7 * length org_words \<le> 10 * matched_words))"

text \<open>
  The condition of the \<^verbatim>\<open>if\<close> at lines 97--100 is an \<^verbatim>\<open>or\<close> of four tests, evaluated left
  to right and stopping at the first that holds; only the last one can raise.
\<close>

definition exact_substring :: "string \<Rightarrow> string \<Rightarrow> bool" where
  "exact_substring org_name search_text = str_in (lower org_name) search_text"

definition org_without_of :: "string \<Rightarrow> string" where
  "org_without_of org_name =
     join_space (filter (\<lambda>word. word \<noteq> ''of'') (findall_words (lower org_name)))"

definition normalized_substring :: "string \<Rightarrow> string \<Rightarrow> bool" where
  "normalized_substring org_name search_text = str_in (org_without_of org_name) search_text"

definition all_tokens_present :: "string \<Rightarrow> string \<Rightarrow> bool" where
  "all_tokens_present org_name search_text =
     list_all (\<lambda>word. str_in word search_text) (findall_words (lower org_name))"

definition matches :: "string \<Rightarrow> string \<Rightarrow> error + bool" where
  "matches org_name search_text =
     (if exact_substring org_name search_text then Inr True
      else if normalized_substring org_name search_text then Inr True
      else if all_tokens_present org_name search_text then Inr True
      else fuzzy_match org_name search_text)"


subsection \<open>The rate limiter (source lines 13--35)\<close>

text \<open>
  \<^verbatim>\<open>wrapper\<close> reads the clock once, prunes the log \<^verbatim>\<open>calls_made\<close>, and when the pruned log
  is full it sleeps (if the computed time is positive) and evicts the oldest entry with
  \<^verbatim>\<open>pop(0)\<close>; then it appends the reading taken at entry and calls the wrapped function.
  The model returns the new log and the time slept, if any. \<^verbatim>\<open>calls_made[0]\<close> on an
  empty log raises \<^verbatim>\<open>IndexError\<close>, which happens when \<^verbatim>\<open>calls\<close> is not positive.

  Timestamps are kept abstract: any type with \<open>+\<close>, \<open>-\<close>, \<open>0\<close> and \<open><\<close>, with no law
  assumed of them, so that the results hold for the floating-point readings of
  \<^verbatim>\<open>time.time()\<close> as well as for exact numbers.
\<close>

definition wrapper ::
  "int \<Rightarrow> ('t :: {plus, minus, ord, zero}) \<Rightarrow> 't \<Rightarrow> 't list \<Rightarrow> error + ('t list \<times> 't option)" where
  "wrapper calls period current_time calls_made =
     (let pruned = filter (\<lambda>call_time. current_time - call_time < period) calls_made
      in if int (length pruned) \<ge> calls then
           (case pruned of
              [] \<Rightarrow> Inl IndexError
            | oldest # rest \<Rightarrow>
                (let sleep_time = oldest + period - current_time
                 in Inr (rest @ [current_time],
                         if sleep_time > 0 then Some sleep_time else None)))
         else Inr (pruned @ [current_time], None))"

text \<open>
  A sequence of invocations of one wrapped function: the log is shared, and each
  invocation brings its own clock reading. Nothing is assumed of the readings.
\<close>

fun run_calls ::
  "int \<Rightarrow> 't \<Rightarrow> 't list \<Rightarrow> ('t :: {plus, minus, ord, zero}) list \<Rightarrow> error + 't list" where
  "run_calls calls period calls_made [] = Inr calls_made"
| "run_calls calls period calls_made (current_time # later) =
     (case wrapper calls period current_time calls_made of
        Inl err \<Rightarrow> Inl err
      | Inr (calls_made', slept) \<Rightarrow> run_calls calls period calls_made' later)"

text \<open>
  The entries of a log that fall in the window of length \<open>period\<close> trailing \<open>now\<close>:
  not later than \<open>now\<close> and, by the limiter's own test, younger than \<open>period\<close>.
\<close>

definition in_window ::
  "'t \<Rightarrow> 't \<Rightarrow> ('t :: {plus, minus, ord, zero}) list \<Rightarrow> 't list" where
  "in_window period now calls_made =
     filter (\<lambda>call_time. now - call_time < period \<and> call_time \<le> now) calls_made"


subsection \<open>The paginated search (source lines 73--139)\<close>

text \<open>
  An actor of the directory, with the attributes the search reads; an absent or
  \<^verbatim>\<open>None\<close> attribute is \<open>None\<close>. The dictionary built for a match has the keys of lines
  101--111.
\<close>

record actor =
  actor_handle :: string
  actor_display_name :: "string option"
  actor_description :: "string option"
  actor_followers_count :: "int option"
  actor_following_count :: "int option"
  actor_posts_count :: "int option"

record account_info =
  search_term :: string
  organization_type :: string
  handle :: string
  display_name :: "string option"
  description :: "string option"
  follower_count :: int
  following_count :: int
  posts_count :: int
  search_date :: string

record params =
  term_param :: string
  limit_param :: nat
  cursor_param :: "string option"

text \<open>
  What one call of \<^verbatim>\<open>search_actors\<close> does: it returns a page (actors and an optional
  cursor), raises an \<^verbatim>\<open>AtProtocolError\<close> (with its message, and the \<^verbatim>\<open>RateLimit-Reset\<close>
  header of its response: absent, an integer, or unreadable, as a text that \<^verbatim>\<open>int\<close>
  rejects is), or raises some other instance of \<^verbatim>\<open>Exception\<close>. Reading an unreadable
  header raises inside the handler; which exception it is does not matter, since the
  outer handler treats all alike.
\<close>

datatype reset_header = No_header | Reset_at int | Unreadable

datatype response =
    Results "actor list" "string option"
  | Raise_AtProtocolError string reset_header
  | Raise_Exception string

text \<open>
  The world outside the function: the remote service, which answers the \<open>n\<close>-th request
  of an invocation given its parameters, and the clock, whose \<open>k\<close>-th reading gives the
  Unix time (\<^verbatim>\<open>int(time.time())\<close>) and the date (\<^verbatim>\<open>datetime.now().strftime('%Y-%m-%d')\<close>).
\<close>

record instant =
  unix_seconds :: int
  ymd :: string

record env =
  remote :: "nat \<Rightarrow> params \<Rightarrow> response"
  clock :: "nat \<Rightarrow> instant"

text \<open>
  The local variables of the loop, together with a trace of the effects: the requests
  sent, the number of clock readings, and the durations passed to \<^verbatim>\<open>time.sleep\<close>.
\<close>

record loop_state =
  matched_accounts :: "account_info list"
  cursor :: "string option"
  page_count :: nat
  requests :: "params list"
  clock_reads :: nat
  sleeps :: "int list"

datatype outcome = Continue loop_state | Break loop_state | Raise error

definition truthy :: "string option \<Rightarrow> bool" where
  "truthy c = (case c of None \<Rightarrow> False | Some s \<Rightarrow> s \<noteq> [])"

definition format_display_name :: "string option \<Rightarrow> string" where
  "format_display_name d = (case d of None \<Rightarrow> ''None'' | Some s \<Rightarrow> s)"

definition search_text_of :: "actor \<Rightarrow> string" where
  "search_text_of a =
     lower (format_display_name (actor_display_name a) @ '' '' @
            (case actor_description a of None \<Rightarrow> [] | Some d \<Rightarrow> d))"

definition getattr0 :: "int option \<Rightarrow> int" where
  "getattr0 v = (case v of None \<Rightarrow> 0 | Some n \<Rightarrow> n)"

definition make_account_info :: "string \<Rightarrow> string \<Rightarrow> actor \<Rightarrow> string \<Rightarrow> account_info" where
  "make_account_info org_name org_type a today =
     \<lparr> search_term = org_name,
       organization_type = org_type,
       handle = actor_handle a,
       display_name = actor_display_name a,
       description = actor_description a,
       follower_count = getattr0 (actor_followers_count a),
       following_count = getattr0 (actor_following_count a),
       posts_count = getattr0 (actor_posts_count a),
       search_date = today \<rparr>"

text \<open>
  The \<^verbatim>\<open>for actor in results.actors\<close> loop: every accepted actor reads the clock once,
  for its \<^verbatim>\<open>search_date\<close>, and is appended to \<^verbatim>\<open>matched_accounts\<close>.
\<close>

fun evaluate_page ::
  "env \<Rightarrow> string \<Rightarrow> string \<Rightarrow> actor list \<Rightarrow> loop_state \<Rightarrow> error + loop_state" where
  "evaluate_page e org_name org_type [] st = Inr st"
| "evaluate_page e org_name org_type (a # actors) st =
     (case matches org_name (search_text_of a) of
        Inl err \<Rightarrow> Inl err
      | Inr False \<Rightarrow> evaluate_page e org_name org_type actors st
      | Inr True \<Rightarrow>
          evaluate_page e org_name org_type actors
            (st \<lparr> matched_accounts := matched_accounts st @
                     [make_account_info org_name org_type a (ymd (clock e (clock_reads st)))],
                  clock_reads := clock_reads st + 1 \<rparr>))"

definition request_params :: "string \<Rightarrow> loop_state \<Rightarrow> params" where
  "request_params search_term_arg st =
     \<lparr> term_param = search_term_arg, limit_param = 100,
       cursor_param = (if truthy (cursor st) then cursor st else None) \<rparr>"

text \<open>
  One pass through the body of \<^verbatim>\<open>while True\<close> (lines 87--133), with the inner
  \<^verbatim>\<open>try\<close>/\<^verbatim>\<open>except AtProtocolError\<close>: it ends in \<^verbatim>\<open>continue\<close> or falls through to the next
  pass, in \<^verbatim>\<open>break\<close>, or in an exception that leaves the loop.
\<close>

definition iteration ::
  "env \<Rightarrow> nat \<Rightarrow> string \<Rightarrow> string \<Rightarrow> string \<Rightarrow> loop_state \<Rightarrow> outcome" where
  "iteration e bound org_name org_type search_term_arg st =
     (let ps = request_params search_term_arg st;
          st1 = st \<lparr> requests := requests st @ [ps] \<rparr>
      in case remote e (length (requests st)) ps of
           Results actors next_cursor \<Rightarrow>
             (case evaluate_page e org_name org_type actors st1 of
                Inl err \<Rightarrow> Raise err
              | Inr st2 \<Rightarrow>
                  if \<not> truthy next_cursor then Break st2
                  else let st3 = st2 \<lparr> cursor := next_cursor, page_count := page_count st2 + 1 \<rparr>
                       in if page_count st3 \<ge> bound then Break st3
                          else Continue (st3 \<lparr> sleeps := sleeps st3 @ [1] \<rparr>))
         | Raise_AtProtocolError msg hdr \<Rightarrow>
             if str_in ''RateLimitExceeded'' msg then
               (case hdr of
                  Unreadable \<Rightarrow> Raise ValueError
                | _ \<Rightarrow>
                    let reset_time = (case hdr of Reset_at n \<Rightarrow> n | _ \<Rightarrow> 0);
                        wait_time = max 0 (reset_time - unix_seconds (clock e (clock_reads st1)))
                    in Continue (st1 \<lparr> clock_reads := clock_reads st1 + 1,
                                       sleeps := sleeps st1 @ [wait_time + 1] \<rparr>))
             else Raise (AtProtocolError msg)
         | Raise_Exception msg \<Rightarrow> Raise (OtherException msg))"

text \<open>
  The loop has no bound on the retries after a rate-limit error, so it need not
  terminate: its value is \<open>None\<close> when it runs forever.
\<close>

partial_function (option) while_loop ::
  "env \<Rightarrow> nat \<Rightarrow> string \<Rightarrow> string \<Rightarrow> string \<Rightarrow> loop_state \<Rightarrow> (error + loop_state) option" where
  "while_loop e bound org_name org_type search_term_arg st =
     (case iteration e bound org_name org_type search_term_arg st of
        Continue st' \<Rightarrow> while_loop e bound org_name org_type search_term_arg st'
      | Break st' \<Rightarrow> Some (Inr st')
      | Raise err \<Rightarrow> Some (Inl err))"

declare while_loop.simps [code]

text \<open>
  The local constant \<^verbatim>\<open>max_pages = 1\<close> of line 82 (``adjust as needed''). The body of
  the method is given for any bound; \<open>search_organization\<close> is the body at the bound of
  the source. The outer \<^verbatim>\<open>except Exception\<close> turns every exception into the empty list.
  The decorator \<^verbatim>\<open>@rate_limit(calls=100, period=86400)\<close> runs \<open>wrapper\<close> before the body
  and changes neither its arguments nor its result.
\<close>

definition max_pages :: nat where
  "max_pages = 1"

definition initial_state :: loop_state where
  "initial_state = \<lparr> matched_accounts = [], cursor = None, page_count = 0,
                     requests = [], clock_reads = 0, sleeps = [] \<rparr>"

definition search_term_of :: "string \<Rightarrow> string" where
  "search_term_of org_name =
     (case findall_words (lower org_name) of [] \<Rightarrow> org_name | first_word # _ \<Rightarrow> first_word)"

definition run_search :: "env \<Rightarrow> nat \<Rightarrow> string \<Rightarrow> string \<Rightarrow> (error + loop_state) option" where
  "run_search e bound org_name org_type =
     while_loop e bound org_name org_type (search_term_of org_name) initial_state"

definition search_organization_bounded ::
  "nat \<Rightarrow> env \<Rightarrow> string \<Rightarrow> string \<Rightarrow> account_info list option" where
  "search_organization_bounded bound e org_name org_type =
     (case run_search e bound org_name org_type of
        None \<Rightarrow> None
      | Some (Inl err) \<Rightarrow> Some []
      | Some (Inr st) \<Rightarrow> Some (matched_accounts st))"

definition search_organization :: "env \<Rightarrow> string \<Rightarrow> string \<Rightarrow> account_info list option" where
  "search_organization e org_name org_type =
     search_organization_bounded max_pages e org_name org_type"


subsection \<open>Notions used to state the properties of the search\<close>

text \<open>
  The state at the head of the loop after \<open>n\<close> passes that all went on to a next pass.
\<close>

fun nth_state ::
  "env \<Rightarrow> nat \<Rightarrow> string \<Rightarrow> string \<Rightarrow> string \<Rightarrow> nat \<Rightarrow> loop_state \<Rightarrow> loop_state option" where
  "nth_state e bound org_name org_type search_term_arg 0 st = Some st"
| "nth_state e bound org_name org_type search_term_arg (Suc n) st =
     (case iteration e bound org_name org_type search_term_arg st of
        Continue st' \<Rightarrow> nth_state e bound org_name org_type search_term_arg n st'
      | _ \<Rightarrow> None)"

text \<open>
  An answer of the remote that is an error but not a rate-limit error in the sense of
  line 126.
\<close>

definition non_rate_limit_error :: "response \<Rightarrow> bool" where
  "non_rate_limit_error r =
     (case r of
        Results actors next_cursor \<Rightarrow> False
      | Raise_AtProtocolError msg hdr \<Rightarrow> \<not> str_in ''RateLimitExceeded'' msg
      | Raise_Exception msg \<Rightarrow> True)"

text \<open>
  The matches of one page: its accepted actors in page order, the \<open>i\<close>-th of them dated
  by the clock reading number \<open>k + i\<close>.
\<close>

definition accepted :: "string \<Rightarrow> actor list \<Rightarrow> actor list" where
  "accepted org_name actors =
     filter (\<lambda>a. matches org_name (search_text_of a) = Inr True) actors"

definition page_accounts ::
  "env \<Rightarrow> string \<Rightarrow> string \<Rightarrow> nat \<Rightarrow> actor list \<Rightarrow> account_info list" where
  "page_accounts e org_name org_type k actors =
     map (\<lambda>(i, a). make_account_info org_name org_type a (ymd (clock e i)))
         (enumerate k (accepted org_name actors))"

definition first_request :: "string \<Rightarrow> params" where
  "first_request org_name =
     \<lparr> term_param = search_term_of org_name, limit_param = 100, cursor_param = None \<rparr>"

definition dated :: "string \<Rightarrow> loop_state \<Rightarrow> bool" where
  "dated today st = list_all (\<lambda>m. search_date m = today) (matched_accounts st)"


subsection \<open>Stub remotes and clocks for the concrete runs\<close>

definition oxford_university :: actor where
  "oxford_university =
     \<lparr> actor_handle = ''ox.ac.uk'', actor_display_name = Some ''Oxford University'',
       actor_description = None, actor_followers_count = Some 10,
       actor_following_count = None, actor_posts_count = None \<rparr>"

definition oxford_brookes :: actor where
  "oxford_brookes =
     \<lparr> actor_handle = ''brookes.ac.uk'', actor_display_name = Some ''Oxford Brookes'',
       actor_description = Some ''A university in Oxford'', actor_followers_count = None,
       actor_following_count = None, actor_posts_count = None \<rparr>"

definition fixed_clock :: "nat \<Rightarrow> instant" where
  "fixed_clock k = \<lparr> unix_seconds = 1700000000 + int k, ymd = ''2023-11-14'' \<rparr>"

definition midnight_clock :: "nat \<Rightarrow> instant" where
  "midnight_clock k =
     (if k = 0 then \<lparr> unix_seconds = 1700006399, ymd = ''2023-11-14'' \<rparr>
      else \<lparr> unix_seconds = 1700006400 + int k, ymd = ''2023-11-15'' \<rparr>)"

definition stub_two_pages :: env where
  "stub_two_pages =
     \<lparr> remote = (\<lambda>n ps. if n = 0 then Results [oxford_university] (Some ''page2'')
                        else Results [oxford_brookes] None),
       clock = fixed_clock \<rparr>"

definition stub_error_on_second_page :: env where
  "stub_error_on_second_page =
     \<lparr> remote = (\<lambda>n ps. if n = 0 then Results [oxford_university] (Some ''page2'')
                        else Raise_AtProtocolError ''InternalServerError'' No_header),
       clock = fixed_clock \<rparr>"

definition stub_rate_limited_once :: env where
  "stub_rate_limited_once =
     \<lparr> remote = (\<lambda>n ps. if n = 0
                        then Raise_AtProtocolError ''RateLimitExceeded'' (Reset_at 1700000030)
                        else Results [oxford_university] None),
       clock = fixed_clock \<rparr>"

definition stub_across_midnight :: env where
  "stub_across_midnight =
     \<lparr> remote = (\<lambda>n ps. Results [oxford_university, oxford_brookes] None),
       clock = midnight_clock \<rparr>"

definition state_after_first_page :: loop_state where
  "state_after_first_page =
     \<lparr> matched_accounts =
         [make_account_info ''Oxford'' ''university'' oxford_university ''2023-11-14''],
       cursor = Some ''page2'', page_count = 1,
       requests = [first_request ''Oxford''],
       clock_reads = 1, sleeps = [1] \<rparr>"


section \<open>Properties\<close>

subsection \<open>Edit distance\<close>

lemma lev_Nil2 [simp]: "lev xs [] = length xs"
  by (cases xs) simp_all

lemma lev_sym: "lev xs ys = lev ys xs"
  by (induction xs ys rule: lev.induct) (simp_all add: min.commute min.left_commute)

lemma length_row [simp]: "length (row xs s2 n) = n"
  by (simp add: row_def)

lemma row_nth [simp]: "j < n \<Longrightarrow> row xs s2 n ! j = lev (rev xs) (rev (take j s2))"
  by (simp add: row_def)

lemma row_Suc: "row xs s2 (Suc n) = row xs s2 n @ [lev (rev xs) (rev (take n s2))]"
  by (simp add: row_def)

text \<open>
  The inner loop, started on the first \<open>j + 1\<close> cells of the new row with the rest of
  \<^verbatim>\<open>s2\<close> still to read, completes the new row.
\<close>

lemma inner_loop_row:
  "j \<le> length s2 \<Longrightarrow> rest = drop j s2 \<Longrightarrow>
   inner_loop (row xs s2 (Suc (length s2))) c1 (row (xs @ [c1]) s2 (Suc j)) j rest
     = row (xs @ [c1]) s2 (Suc (length s2))"
proof (induction rest arbitrary: j)
  case Nil
  then show ?case by simp
next
  case (Cons c2 rest)
  have j: "j < length s2"
    using Cons.prems by (cases "j < length s2") simp_all
  have c2: "s2 ! j = c2"
    using Cons.prems j by (metis nth_via_drop)
  have tk: "take (Suc j) s2 = take j s2 @ [c2]"
    using j c2 by (simp add: take_Suc_conv_app_nth)
  have rest: "rest = drop (Suc j) s2"
    using Cons.prems by (metis drop_Suc tl_drop list.sel(3))
  have cell: "min (row xs s2 (Suc (length s2)) ! (j + 1) + 1)
                (min (row (xs @ [c1]) s2 (Suc j) ! j + 1)
                     (row xs s2 (Suc (length s2)) ! j + (if c1 \<noteq> c2 then 1 else 0)))
              = lev (rev (xs @ [c1])) (rev (take (Suc j) s2))"
    using j by (simp add: tk)
  have "inner_loop (row xs s2 (Suc (length s2))) c1 (row (xs @ [c1]) s2 (Suc j)) j (c2 # rest)
        = inner_loop (row xs s2 (Suc (length s2))) c1
            (row (xs @ [c1]) s2 (Suc (Suc j))) (Suc j) rest"
    unfolding inner_loop.simps Let_def cell
    by (simp add: row_Suc [of _ _ "Suc j"])
  also have "\<dots> = row (xs @ [c1]) s2 (Suc (length s2))"
    using Cons.IH [of "Suc j"] rest j by simp
  finally show ?case .
qed

lemma outer_loop_row:
  "outer_loop s2 (row xs s2 (Suc (length s2))) (length xs) rest
     = row (xs @ rest) s2 (Suc (length s2))"
proof (induction rest arbitrary: xs)
  case Nil
  then show ?case by simp
next
  case (Cons c1 rest)
  have start: "[length xs + 1] = row (xs @ [c1]) s2 (Suc 0)"
    by (simp add: row_def)
  have "inner_loop (row xs s2 (Suc (length s2))) c1 [length xs + 1] 0 s2
          = row (xs @ [c1]) s2 (Suc (length s2))"
    unfolding start by (rule inner_loop_row) simp_all
  then show ?case
    using Cons.IH [of "xs @ [c1]"] by simp
qed

lemma first_row: "[0..<length s2 + 1] = row [] s2 (Suc (length s2))"
proof -
  have "map (\<lambda>j. lev (rev []) (rev (take j s2))) [0..<Suc (length s2)]
          = map (\<lambda>j. j) [0..<Suc (length s2)]"
    by (rule map_cong) auto
  then show ?thesis
    by (simp add: row_def del: upt_Suc)
qed

lemma levenshtein_table:
  "last (outer_loop s2 [0..<length s2 + 1] 0 s1) = lev (rev s1) (rev s2)"
proof -
  have "outer_loop s2 [0..<length s2 + 1] 0 s1 = row s1 s2 (Suc (length s2))"
    unfolding first_row using outer_loop_row [of s2 "[]" s1] by simp
  then show ?thesis
    by (simp add: row_Suc)
qed

lemma levenshtein_distance_lev: "levenshtein_distance s1 s2 = lev (rev s1) (rev s2)"
proof (induction s1 s2 rule: levenshtein_distance.induct)
  case (1 s1 s2)
  show ?case
  proof (cases "length s1 < length s2")
    case True
    then show ?thesis
      using "1" by (subst levenshtein_distance.simps) (simp add: lev_sym)
  next
    case False
    then show ?thesis
      by (subst levenshtein_distance.simps, subst levenshtein_table) simp
  qed
qed

text \<open>
  Claim C9. For all strings \<open>a\<close> and \<open>b\<close> the edit distance is symmetric:
  \<^verbatim>\<open>levenshtein_distance(a, b)\<close> equals \<^verbatim>\<open>levenshtein_distance(b, a)\<close>. For strings of
  different lengths this is the swap at the head of the method; for strings of equal
  length it is the symmetry of the table itself.
\<close>

theorem levenshtein_distance_symmetric:
  "levenshtein_distance a b = levenshtein_distance b a"
  by (simp add: levenshtein_distance_lev lev_sym [of "rev a"])


subsection \<open>Substrings and tokens\<close>

lemma startswith_iff: "startswith needle haystack \<longleftrightarrow> (\<exists>suffix. haystack = needle @ suffix)"
  by (induction needle haystack rule: startswith.induct) auto

lemma str_in_iff:
  "str_in needle haystack \<longleftrightarrow> (\<exists>before after. haystack = before @ needle @ after)"
proof (induction haystack)
  case Nil
  then show ?case by auto
next
  case (Cons d haystack)
  show ?case
  proof
    assume "str_in needle (d # haystack)"
    then consider "startswith needle (d # haystack)" | "str_in needle haystack" by auto
    then show "\<exists>before after. d # haystack = before @ needle @ after"
    proof cases
      case 1
      then obtain suffix where "d # haystack = needle @ suffix"
        by (auto simp: startswith_iff)
      then have "d # haystack = [] @ needle @ suffix" by simp
      then show ?thesis by blast
    next
      case 2
      then obtain before after where "haystack = before @ needle @ after"
        using Cons.IH by auto
      then have "d # haystack = (d # before) @ needle @ after" by simp
      then show ?thesis by blast
    qed
  next
    assume "\<exists>before after. d # haystack = before @ needle @ after"
    then obtain before after where eq: "d # haystack = before @ needle @ after" by auto
    show "str_in needle (d # haystack)"
    proof (cases before)
      case Nil
      then have "startswith needle (d # haystack)"
        using eq by (auto simp: startswith_iff)
      then show ?thesis by simp
    next
      case (Cons b before')
      then have "haystack = before' @ needle @ after" using eq by simp
      then have "str_in needle haystack" using Cons.IH by blast
      then show ?thesis by simp
    qed
  qed
qed

lemma str_in_Nil [simp]: "str_in [] haystack"
  by (induction haystack) simp_all

lemma runs_empty_iff: "runs keep cur s = [] \<longleftrightarrow> cur = [] \<and> (\<forall>c \<in> set s. \<not> keep c)"
  by (induction s arbitrary: cur) auto

lemma word_char_not_space: "is_word_char c \<Longrightarrow> \<not> is_space c"
  by (auto simp: is_word_char_def is_space_def Let_def)

lemma no_tokens_no_words: "split s = [] \<Longrightarrow> findall_words s = []"
  using word_char_not_space by (auto simp: split_def findall_words_def runs_empty_iff)


subsection \<open>The matcher\<close>

text \<open>
  Claim C1 says that the match decision is true for the organisation name
  ``University of Oxford'' against the text ``oxford university press''. It is not: the
  name is no substring of the text, nor is ``university oxford''; the token ``of'' does
  not occur in the text; and the fuzzy test matches two of the three tokens, which is
  less than seven tenths.
\<close>

theorem matches_oxford_press_not_true:
  "matches ''University of Oxford'' ''oxford university press'' \<noteq> Inr True"
  by code_simp

text \<open>
  Claim C1, as amended: for the organisation name ``University of Oxford'' against the
  text ``oxford university press'' each of the four tests fails, and the match
  decision is false.
\<close>

theorem matches_oxford_press_false:
  "\<not> exact_substring ''University of Oxford'' ''oxford university press'' \<and>
   \<not> normalized_substring ''University of Oxford'' ''oxford university press'' \<and>
   \<not> all_tokens_present ''University of Oxford'' ''oxford university press'' \<and>
   fuzzy_match ''University of Oxford'' ''oxford university press'' = Inr False \<and>
   matches ''University of Oxford'' ''oxford university press'' = Inr False"
  by code_simp

lemma fuzzy_match_no_tokens:
  "split (lower org_name) = [] \<Longrightarrow> fuzzy_match org_name search_text = Inl ZeroDivisionError"
  by (simp add: fuzzy_match_def)

text \<open>
  Claim C2 says that for an organisation name without whitespace tokens the fuzzy test
  does not raise and returns false. The method divides by the number of tokens without
  a guard: for the empty name it raises \<^verbatim>\<open>ZeroDivisionError\<close>.
\<close>

theorem fuzzy_match_empty_name_raises:
  "fuzzy_match [] ''oxford university press'' = Inl ZeroDivisionError"
  by code_simp

text \<open>
  Inside \<^verbatim>\<open>search_organization\<close> that division is never reached with an empty token
  list: a name without whitespace tokens has no word either, so that the second test
  already holds. The match decision therefore always returns a truth value.
\<close>

lemma matches_total:
  "matches org_name haystack = Inr True \<or> matches org_name haystack = Inr False"
proof (cases "split (lower org_name) = []")
  case True
  then have "findall_words (lower org_name) = []" by (rule no_tokens_no_words)
  then show ?thesis
    by (simp add: matches_def normalized_substring_def org_without_of_def)
next
  case False
  then show ?thesis
    by (simp add: matches_def fuzzy_match_def Let_def)
qed

text \<open>
  Claim C4 says that the all-tokens-present test accepts exactly when every word of the
  organisation name is one of the whitespace tokens of the text. The test is a substring
  test: the name ``ox'' is accepted for the text ``oxford'', whose only token is
  ``oxford''.
\<close>

theorem all_tokens_present_not_token_containment:
  "all_tokens_present ''ox'' ''oxford'' \<and>
   ''ox'' \<in> set (findall_words (lower ''ox'')) \<and>
   ''ox'' \<notin> set (split ''oxford'')"
  by code_simp

text \<open>
  Claim C4, as amended: the all-tokens-present test accepts exactly when every word of
  the lower-cased organisation name (including ``of'') occurs in the text as a
  substring, at any position, in any order.
\<close>

theorem all_tokens_present_iff_substrings:
  "all_tokens_present org_name search_text \<longleftrightarrow>
     (\<forall>word \<in> set (findall_words (lower org_name)).
        \<exists>before after. search_text = before @ word @ after)"
  by (simp add: all_tokens_present_def list_all_iff str_in_iff)

theorem all_tokens_present_iff_substrings_witness:
  "all_tokens_present ''Oxford University'' ''university of oxford'' \<and>
   ''oxford'' \<in> set (findall_words (lower ''Oxford University'')) \<and>
   (\<exists>before after. ''university of oxford'' = before @ ''oxford'' @ after)"
proof -
  have holds: "all_tokens_present ''Oxford University'' ''university of oxford''"
    by code_simp
  have word: "''oxford'' \<in> set (findall_words (lower ''Oxford University''))"
    by code_simp
  from all_tokens_present_iff_substrings
         [of "''Oxford University''" "''university of oxford''"] holds word
  show ?thesis by blast
qed

text \<open>
  Claim C10. For every organisation name without a word (\<^verbatim>\<open>re.findall\<close> finds
  nothing, as for an empty or punctuation-only name) the match decision accepts every
  text: the name without ``of'' is the empty string, a substring of any text. The
  decision returns before the fuzzy test, so nothing is raised.
\<close>

theorem matches_without_words:
  "findall_words (lower org_name) = [] \<Longrightarrow>
   org_without_of org_name = [] \<and> normalized_substring org_name search_text \<and>
   matches org_name search_text = Inr True"
  by (simp add: matches_def normalized_substring_def org_without_of_def)

theorem matches_without_words_witness:
  "findall_words (lower ''?!'') = [] \<and>
   org_without_of ''?!'' = [] \<and> normalized_substring ''?!'' ''oxford university press'' \<and>
   matches ''?!'' ''oxford university press'' = Inr True"
proof -
  have none: "findall_words (lower ''?!'') = []" by code_simp
  from matches_without_words [OF none, of "''oxford university press''"] none
  show ?thesis by blast
qed


subsection \<open>The rate limiter\<close>

lemma filter_length_bound:
  "int (length xs) \<le> c \<Longrightarrow> int (length (filter P xs)) \<le> c"
  using length_filter_le [of P xs] by linarith

text \<open>
  One invocation keeps a log of at most \<open>calls\<close> entries within that bound, and does
  not raise: a full pruned log is not empty when \<open>calls\<close> is positive.
\<close>

lemma wrapper_length:
  assumes "0 < calls" and "int (length calls_made) \<le> calls"
  shows "\<exists>calls_made' slept.
           wrapper calls period current_time calls_made = Inr (calls_made', slept) \<and>
           int (length calls_made') \<le> calls"
proof -
  let ?pruned = "filter (\<lambda>call_time. current_time - call_time < period) calls_made"
  have len: "int (length ?pruned) \<le> calls"
    using assms(2) by (rule filter_length_bound)
  show ?thesis
  proof (cases "int (length ?pruned) \<ge> calls")
    case True
    then obtain oldest rest where pr: "?pruned = oldest # rest"
      using assms(1) by (cases ?pruned) auto
    then have "int (length (rest @ [current_time])) \<le> calls"
      using len by simp
    then show ?thesis
      using True pr by (simp add: wrapper_def Let_def)
  next
    case False
    then show ?thesis
      by (simp add: wrapper_def Let_def)
  qed
qed

lemma run_calls_length:
  "0 < calls \<Longrightarrow> int (length calls_made) \<le> calls \<Longrightarrow>
   \<exists>log. run_calls calls period calls_made readings = Inr log \<and> int (length log) \<le> calls"
proof (induction readings arbitrary: calls_made)
  case Nil
  then show ?case by simp
next
  case (Cons current_time later)
  from wrapper_length [OF Cons.prems, of period current_time]
  obtain calls_made' slept where
    w: "wrapper calls period current_time calls_made = Inr (calls_made', slept)"
    and l: "int (length calls_made') \<le> calls"
    by blast
  show ?case
    using Cons.IH [OF Cons.prems(1) l] w by simp
qed

text \<open>
  Claim C3. For every sequence of invocations of a function wrapped with a positive
  \<open>calls\<close> and any \<open>period\<close>, whatever the clock reads at each invocation, no invocation
  raises, and the recorded log never holds more than \<open>calls\<close> timestamps within the
  window of length \<open>period\<close> trailing any instant \<open>now\<close>. (The sequence is arbitrary, so
  the statement covers the log after each invocation.)
\<close>

theorem rate_limiter_window_bound:
  "0 < calls \<Longrightarrow>
   \<exists>log. run_calls calls period [] readings = Inr log \<and>
     (\<forall>now. int (length (in_window period now log)) \<le> calls)"
proof -
  assume positive: "0 < calls"
  then obtain log where r: "run_calls calls period [] readings = Inr log"
    and l: "int (length log) \<le> calls"
    using run_calls_length [of calls "[]" period readings] by auto
  have "int (length (in_window period now log)) \<le> calls" for now
    unfolding in_window_def using l by (rule filter_length_bound)
  with r show ?thesis by blast
qed

theorem rate_limiter_window_bound_witness:
  "(0::int) < 2 \<and>
   (\<exists>log. run_calls 2 (10::int) [] [0, 0, 0] = Inr log \<and>
     (\<forall>now. int (length (in_window 10 now log)) \<le> 2))"
proof -
  have positive: "(0::int) < 2" by simp
  from rate_limiter_window_bound [OF positive, where period = "10::int" and readings = "[0, 0, 0]"]
  show ?thesis using positive by blast
qed


subsection \<open>The paginated search\<close>

text \<open>
  Evaluating a page never raises, and appends exactly the matches of the page.
\<close>

lemma evaluate_page_eq:
  "evaluate_page e org_name org_type actors st =
     Inr (st \<lparr> matched_accounts :=
                 matched_accounts st @ page_accounts e org_name org_type (clock_reads st) actors,
               clock_reads := clock_reads st + length (accepted org_name actors) \<rparr>)"
proof (induction actors arbitrary: st)
  case Nil
  then show ?case by (simp add: page_accounts_def accepted_def)
next
  case (Cons a actors)
  from matches_total [of org_name "search_text_of a"] show ?case
  proof
    assume "matches org_name (search_text_of a) = Inr True"
    then show ?thesis
      by (simp add: Cons.IH page_accounts_def accepted_def)
  next
    assume "matches org_name (search_text_of a) = Inr False"
    then show ?thesis
      by (simp add: Cons.IH page_accounts_def accepted_def)
  qed
qed

text \<open>
  The loop started in a state gives what it gives when started in any state it reaches.
\<close>

lemma nth_state_loop:
  "nth_state e bound org_name org_type search_term_arg n st = Some st' \<Longrightarrow>
   while_loop e bound org_name org_type search_term_arg st
     = while_loop e bound org_name org_type search_term_arg st'"
proof (induction n arbitrary: st)
  case 0
  then show ?case by simp
next
  case (Suc n)
  then obtain st1 where
    it: "iteration e bound org_name org_type search_term_arg st = Continue st1"
    and rest: "nth_state e bound org_name org_type search_term_arg n st1 = Some st'"
    by (auto split: outcome.splits)
  have "while_loop e bound org_name org_type search_term_arg st
          = while_loop e bound org_name org_type search_term_arg st1"
    by (subst while_loop.simps) (simp add: it)
  then show ?case
    using Suc.IH [OF rest] by simp
qed

lemma iteration_error:
  "non_rate_limit_error (remote e (length (requests st)) (request_params search_term_arg st)) \<Longrightarrow>
   \<exists>err. iteration e bound org_name org_type search_term_arg st = Raise err"
  by (auto simp: non_rate_limit_error_def iteration_def Let_def split: response.splits)

lemma iteration_first_page:
  assumes "remote e (length (requests st)) (request_params search_term_arg st)
             = Results page next_cursor"
  shows "\<exists>st'. iteration e max_pages org_name org_type search_term_arg st = Break st' \<and>
           matched_accounts st' =
             matched_accounts st @ page_accounts e org_name org_type (clock_reads st) page \<and>
           requests st' = requests st @ [request_params search_term_arg st]"
  using assms by (simp add: iteration_def Let_def evaluate_page_eq max_pages_def)

lemma iteration_rate_limited:
  assumes "remote e (length (requests st)) (request_params search_term_arg st)
             = Raise_AtProtocolError msg hdr"
    and "str_in ''RateLimitExceeded'' msg" and "hdr \<noteq> Unreadable"
  shows "\<exists>st'. iteration e bound org_name org_type search_term_arg st = Continue st' \<and>
           matched_accounts st' = matched_accounts st \<and> cursor st' = cursor st \<and>
           page_count st' = page_count st \<and> clock_reads st' = clock_reads st + 1 \<and>
           requests st' = requests st @ [request_params search_term_arg st]"
  using assms by (cases hdr) (simp_all add: iteration_def Let_def)

lemma request_params_initial:
  "request_params (search_term_of org_name) initial_state = first_request org_name"
  by (simp add: request_params_def initial_state_def first_request_def truthy_def)

text \<open>
  Claim C5. When, at any point of one organisation's search (after any number of pages
  and retries), the remote raises an error that is not a rate-limit error, the search
  returns the empty list: the matches collected so far are dropped, and the caller gets
  a value, not the exception. This holds for every page bound.
\<close>

theorem search_error_returns_empty:
  assumes "nth_state e bound org_name org_type (search_term_of org_name) n initial_state = Some st"
    and "non_rate_limit_error
           (remote e (length (requests st)) (request_params (search_term_of org_name) st))"
  shows "search_organization_bounded bound e org_name org_type = Some []"
proof -
  from iteration_error [OF assms(2)] obtain err where
    "iteration e bound org_name org_type (search_term_of org_name) st = Raise err"
    by blast
  then have "while_loop e bound org_name org_type (search_term_of org_name) st = Some (Inl err)"
    by (subst while_loop.simps) simp
  then have "run_search e bound org_name org_type = Some (Inl err)"
    using nth_state_loop [OF assms(1)] by (simp add: run_search_def)
  then show ?thesis
    by (simp add: search_organization_bounded_def)
qed

text \<open>
  With a page bound of 2, a first page with one match and an error on the second page:
  the match of the first page is in the state when the error is raised, and the search
  returns the empty list.
\<close>

theorem search_error_returns_empty_witness:
  "nth_state stub_error_on_second_page 2 ''Oxford'' ''university'' (search_term_of ''Oxford'') 1
       initial_state = Some state_after_first_page \<and>
   matched_accounts state_after_first_page \<noteq> [] \<and>
   non_rate_limit_error
     (remote stub_error_on_second_page (length (requests state_after_first_page))
        (request_params (search_term_of ''Oxford'') state_after_first_page)) \<and>
   search_organization_bounded 2 stub_error_on_second_page ''Oxford'' ''university'' = Some []"
proof -
  have reached:
    "nth_state stub_error_on_second_page 2 ''Oxford'' ''university'' (search_term_of ''Oxford'') 1
       initial_state = Some state_after_first_page"
    by code_simp
  have collected: "matched_accounts state_after_first_page \<noteq> []"
    by (simp add: state_after_first_page_def)
  have raised:
    "non_rate_limit_error
       (remote stub_error_on_second_page (length (requests state_after_first_page))
          (request_params (search_term_of ''Oxford'') state_after_first_page))"
    by code_simp
  from search_error_returns_empty [OF reached raised] reached collected raised
  show ?thesis by blast
qed

text \<open>
  Claim C6. With the page bound 1 of the source, when the first request is answered by
  a page (with or without a next cursor), the search sends that one request only and
  returns exactly the matches of that page; a second page is never asked for.
\<close>

theorem first_page_only:
  assumes "remote e 0 (first_request org_name) = Results first_page next_cursor"
  shows "search_organization e org_name org_type
           = Some (page_accounts e org_name org_type 0 first_page) \<and>
         (\<exists>st. run_search e max_pages org_name org_type = Some (Inr st) \<and>
               requests st = [first_request org_name])"
proof -
  have r: "remote e (length (requests initial_state))
             (request_params (search_term_of org_name) initial_state)
             = Results first_page next_cursor"
    using assms by (simp add: request_params_initial) (simp add: initial_state_def)
  from iteration_first_page [OF r, of org_name org_type] obtain st' where
    it: "iteration e max_pages org_name org_type (search_term_of org_name) initial_state
           = Break st'"
    and m: "matched_accounts st' = matched_accounts initial_state @
              page_accounts e org_name org_type (clock_reads initial_state) first_page"
    and q: "requests st' = requests initial_state @
              [request_params (search_term_of org_name) initial_state]"
    by blast
  have run: "run_search e max_pages org_name org_type = Some (Inr st')"
    unfolding run_search_def by (subst while_loop.simps) (simp add: it)
  have m': "matched_accounts st' = page_accounts e org_name org_type 0 first_page"
    using m by (simp add: initial_state_def)
  have q': "requests st' = [first_request org_name]"
    using q by (simp add: request_params_initial) (simp add: initial_state_def)
  show ?thesis
    using run m' q' by (simp add: search_organization_def search_organization_bounded_def)
qed

theorem first_page_only_witness:
  "remote stub_two_pages 0 (first_request ''Oxford'')
     = Results [oxford_university] (Some ''page2'') \<and>
   search_organization stub_two_pages ''Oxford'' ''university''
     = Some (page_accounts stub_two_pages ''Oxford'' ''university'' 0 [oxford_university]) \<and>
   (\<exists>st. run_search stub_two_pages max_pages ''Oxford'' ''university'' = Some (Inr st) \<and>
         requests st = [first_request ''Oxford''])"
proof -
  have answer: "remote stub_two_pages 0 (first_request ''Oxford'')
                  = Results [oxford_university] (Some ''page2'')"
    by (simp add: stub_two_pages_def)
  from first_page_only [OF answer, of "''university''"] answer
  show ?thesis by blast
qed

text \<open>
  Claim C7. When the first request raises a rate-limit error (with a reset header that
  is absent or an integer) and the second request is answered by a page, the search
  retries with the same request: the state at the head of the second pass has the
  cursor, the page counter and the matches of the initial state; and the search
  returns the matches of the page, not the error.
\<close>

theorem rate_limit_retry:
  assumes "remote e 0 (first_request org_name) = Raise_AtProtocolError msg hdr"
    and "str_in ''RateLimitExceeded'' msg" and "hdr \<noteq> Unreadable"
    and "remote e 1 (first_request org_name) = Results page next_cursor"
  shows "search_organization e org_name org_type
           = Some (page_accounts e org_name org_type 1 page) \<and>
         (\<exists>st1 st.
            nth_state e max_pages org_name org_type (search_term_of org_name) 1 initial_state
              = Some st1 \<and>
            cursor st1 = cursor initial_state \<and> page_count st1 = page_count initial_state \<and>
            matched_accounts st1 = matched_accounts initial_state \<and>
            run_search e max_pages org_name org_type = Some (Inr st) \<and>
            requests st = [first_request org_name, first_request org_name])"
proof -
  let ?t = "search_term_of org_name"
  have r0: "remote e (length (requests initial_state)) (request_params ?t initial_state)
              = Raise_AtProtocolError msg hdr"
    using assms(1) by (simp add: request_params_initial) (simp add: initial_state_def)
  from iteration_rate_limited [OF r0 assms(2,3), of max_pages org_name org_type]
  obtain st1 where
    it1: "iteration e max_pages org_name org_type ?t initial_state = Continue st1"
    and keep: "matched_accounts st1 = matched_accounts initial_state"
      "cursor st1 = cursor initial_state" "page_count st1 = page_count initial_state"
    and cr: "clock_reads st1 = clock_reads initial_state + 1"
    and q1: "requests st1 = requests initial_state @ [request_params ?t initial_state]"
    by blast
  have rp: "request_params ?t st1 = first_request org_name"
    using keep(2)
    by (simp add: request_params_def first_request_def initial_state_def truthy_def)
  have q1': "requests st1 = [first_request org_name]"
    using q1 by (simp add: request_params_initial) (simp add: initial_state_def)
  have r1: "remote e (length (requests st1)) (request_params ?t st1) = Results page next_cursor"
    using assms(4) by (simp add: rp q1')
  from iteration_first_page [OF r1, of org_name org_type] obtain st where
    it2: "iteration e max_pages org_name org_type ?t st1 = Break st"
    and m: "matched_accounts st = matched_accounts st1 @
              page_accounts e org_name org_type (clock_reads st1) page"
    and q: "requests st = requests st1 @ [request_params ?t st1]"
    by blast
  have n1: "nth_state e max_pages org_name org_type ?t 1 initial_state = Some st1"
    using it1 by simp
  have "while_loop e max_pages org_name org_type ?t st1 = Some (Inr st)"
    by (subst while_loop.simps) (simp add: it2)
  then have run: "run_search e max_pages org_name org_type = Some (Inr st)"
    using nth_state_loop [OF n1] by (simp add: run_search_def)
  have m': "matched_accounts st = page_accounts e org_name org_type 1 page"
    using m keep(1) cr by (simp add: initial_state_def)
  have q': "requests st = [first_request org_name, first_request org_name]"
    using q q1' rp by simp
  show ?thesis
    using n1 keep run m' q'
    by (simp add: search_organization_def search_organization_bounded_def)
qed

theorem rate_limit_retry_witness:
  "remote stub_rate_limited_once 0 (first_request ''Oxford'')
     = Raise_AtProtocolError ''RateLimitExceeded'' (Reset_at 1700000030) \<and>
   str_in ''RateLimitExceeded'' ''RateLimitExceeded'' \<and>
   Reset_at 1700000030 \<noteq> Unreadable \<and>
   remote stub_rate_limited_once 1 (first_request ''Oxford'') = Results [oxford_university] None \<and>
   search_organization stub_rate_limited_once ''Oxford'' ''university''
     = Some (page_accounts stub_rate_limited_once ''Oxford'' ''university'' 1 [oxford_university])"
proof -
  have h1: "remote stub_rate_limited_once 0 (first_request ''Oxford'')
              = Raise_AtProtocolError ''RateLimitExceeded'' (Reset_at 1700000030)"
    by (simp add: stub_rate_limited_once_def)
  have h2: "str_in ''RateLimitExceeded'' ''RateLimitExceeded''"
    by simp
  have h3: "Reset_at 1700000030 \<noteq> Unreadable"
    by simp
  have h4: "remote stub_rate_limited_once 1 (first_request ''Oxford'')
              = Results [oxford_university] None"
    by (simp add: stub_rate_limited_once_def)
  from rate_limit_retry [OF h1 h2 h3 h4, of "''university''"] h1 h2 h3 h4
  show ?thesis by blast
qed

text \<open>
  The invariant for the dates: when the clock shows one date at every reading, a pass
  through the loop body keeps all collected matches on that date.
\<close>

lemma page_accounts_dated:
  "\<forall>k. ymd (clock e k) = today \<Longrightarrow>
   list_all (\<lambda>m. search_date m = today) (page_accounts e org_name org_type k actors)"
  by (simp add: page_accounts_def make_account_info_def list_all_iff split_beta)

lemma iteration_dated:
  assumes "\<forall>k. ymd (clock e k) = today" and "dated today st"
  shows "case iteration e bound org_name org_type search_term_arg st of
           Continue st' \<Rightarrow> dated today st'
         | Break st' \<Rightarrow> dated today st'
         | Raise err \<Rightarrow> True"
  using assms(2) page_accounts_dated [OF assms(1)]
  by (simp add: iteration_def Let_def evaluate_page_eq dated_def
           split: response.splits reset_header.splits)

lemma while_loop_dated:
  assumes run: "while_loop e bound org_name org_type search_term_arg st = Some r"
  shows "(\<forall>k. ymd (clock e k) = today) \<longrightarrow> dated today st \<longrightarrow>
         (case r of Inl err \<Rightarrow> True | Inr st' \<Rightarrow> dated today st')"
proof (rule while_loop.raw_induct
    [where P = "\<lambda>e' b' o' t' s' st' r'.
       (\<forall>k. ymd (clock e' k) = today) \<longrightarrow> dated today st' \<longrightarrow>
         (case r' of Inl err \<Rightarrow> True | Inr st'' \<Rightarrow> dated today st'')", OF _ run], goal_cases)
  case (1 loop e' b' o' t' s' st' r')
  show ?case
  proof (intro impI)
    assume c: "\<forall>k. ymd (clock e' k) = today" and d: "dated today st'"
    from iteration_dated [OF c d, of b' o' t' s']
    show "case r' of Inl err \<Rightarrow> True | Inr st'' \<Rightarrow> dated today st''"
      using 1 c by (auto split: outcome.splits)
  qed
qed

text \<open>
  Claim C8 says that all records of one invocation carry the same \<^verbatim>\<open>search_date\<close>. The
  date is read from the clock anew for every match (line 110): when midnight passes
  between two matches of one page, their dates differ.
\<close>

theorem search_date_differs_across_midnight:
  "search_organization stub_across_midnight ''Oxford'' ''university'' =
     Some [make_account_info ''Oxford'' ''university'' oxford_university ''2023-11-14'',
           make_account_info ''Oxford'' ''university'' oxford_brookes ''2023-11-15''] \<and>
   search_date (make_account_info ''Oxford'' ''university'' oxford_university ''2023-11-14'')
     \<noteq> search_date (make_account_info ''Oxford'' ''university'' oxford_brookes ''2023-11-15'')"
  by code_simp

text \<open>
  Claim C8, as amended: for every invocation of a single organisation search during
  which the calendar date shown by the clock does not change, all records produced by
  that invocation carry that date as their \<^verbatim>\<open>search_date\<close>. This holds for every page
  bound.
\<close>

theorem search_date_stable:
  assumes "\<forall>k. ymd (clock e k) = today"
    and "search_organization_bounded bound e org_name org_type = Some found"
  shows "\<forall>m \<in> set found. search_date m = today"
proof (cases "run_search e bound org_name org_type")
  case None
  then show ?thesis
    using assms(2) by (simp add: search_organization_bounded_def)
next
  case (Some r)
  have d0: "dated today initial_state"
    by (simp add: dated_def initial_state_def)
  from while_loop_dated
         [of e bound org_name org_type "search_term_of org_name" initial_state r today]
  have "case r of Inl err \<Rightarrow> True | Inr st' \<Rightarrow> dated today st'"
    using Some assms(1) d0 by (simp add: run_search_def)
  then show ?thesis
    using Some assms(2)
    by (auto simp: search_organization_bounded_def dated_def list_all_iff split: sum.splits)
qed

theorem search_date_stable_witness:
  "(\<forall>k. ymd (clock stub_two_pages k) = ''2023-11-14'') \<and>
   search_organization_bounded 2 stub_two_pages ''Oxford'' ''university'' =
     Some [make_account_info ''Oxford'' ''university'' oxford_university ''2023-11-14'',
           make_account_info ''Oxford'' ''university'' oxford_brookes ''2023-11-14''] \<and>
   search_date (make_account_info ''Oxford'' ''university'' oxford_university ''2023-11-14'')
     = ''2023-11-14'' \<and>
   search_date (make_account_info ''Oxford'' ''university'' oxford_brookes ''2023-11-14'')
     = ''2023-11-14''"
proof -
  have steady: "\<forall>k. ymd (clock stub_two_pages k) = ''2023-11-14''"
    by (simp add: stub_two_pages_def fixed_clock_def)
  have found: "search_organization_bounded 2 stub_two_pages ''Oxford'' ''university'' =
     Some [make_account_info ''Oxford'' ''university'' oxford_university ''2023-11-14'',
           make_account_info ''Oxford'' ''university'' oxford_brookes ''2023-11-14'']"
    by code_simp
  from search_date_stable [OF steady found]
  have "\<forall>m \<in> set [make_account_info ''Oxford'' ''university'' oxford_university ''2023-11-14'',
                    make_account_info ''Oxford'' ''university'' oxford_brookes ''2023-11-14''].
          search_date m = ''2023-11-14''" .
  with steady found show ?thesis
    by (simp del: set_simps add: ball_simps list.set)
qed

end
